theory Spec2Isabelle
  imports Complex_Main "HOL-Library.AList" "HOL-Library.Sublist" "HOL-Library.Log_Nat"
begin

section \<open>Brute-force association rule mining\<close>

text \<open>
  A shallow embedding of \<^verbatim>\<open>generate_itemsets\<close> and \<^verbatim>\<open>brute_force_association\<close> of
  \<^verbatim>\<open>Mohammed_Sameer_Khan_Midterm_Project.py\<close>.

  Modelling decisions:
  \<^item> The input is the series \<^verbatim>\<open>transactions = dataframe["Items"].str.split(", ")\<close>: a list of
    transactions, each a list of item tokens (Python strings).
  \<^item> A Python float (and a numpy \<^verbatim>\<open>float64\<close>) is the rational number it denotes. Every
    arithmetic operation returns the exact result rounded to the nearest double, ties to
    even (\<open>float_round\<close> below). Infinities and NaN are not modelled: the inputs are
    finite, and an intermediate result beyond the largest double stays a finite number
    larger than every count, which compares like \<^verbatim>\<open>inf\<close> wherever the code compares it.
  \<^item> A pandas table is the list of its rows; a Python dict is an association list in
    insertion order, written with \<^const>\<open>AList.update\<close> (an existing key keeps its place
    and gets the new value, a new key is appended), as \<^verbatim>\<open>d[k] = v\<close> does.
  \<^item> A Python exception is a value \<open>Inl e\<close> of the result type.
\<close>

subsection \<open>Data\<close>

type_synonym item = string

text \<open>
  A cell of the \<^verbatim>\<open>Itemsets\<close> column: the frequent single items are stored as the bare
  string (the index of \<^verbatim>\<open>value_counts\<close>), the larger itemsets as \<^verbatim>\<open>tuple(i_set)\<close>.
\<close>

datatype itemset = Str item | Tup "item list"

record freq_row =
  Itemsets :: itemset
  Frequency :: nat
  Support :: rat

record rule_row =
  Rules :: "itemset \<times> itemset"
  Confidence :: rat
  Rule_Support :: rat

datatype error = ZeroDivisionError | KeyError | ValueError

subsection \<open>Double-precision arithmetic\<close>

text \<open>Rounding to the nearest integer, ties to the even one.\<close>

definition round_half_even :: "rat \<Rightarrow> int" where
  "round_half_even m =
     (let f = \<lfloor>m\<rfloor>; d = m - of_int f in
      if d < 1 / 2 then f else if 1 / 2 < d then f + 1 else if even f then f else f + 1)"

text \<open>For \<open>x > 0\<close>, the exponent \<open>e\<close> with \<open>2 ^ e \<le> x < 2 ^ (e + 1)\<close>.\<close>

definition exponent :: "rat \<Rightarrow> int" where
  "exponent x =
     (let (p, q) = quotient_of x; e = bitlen p - bitlen q in
      if 2 powi e \<le> x then e else e - 1)"

text \<open>
  The exponent of the unit in the last place of a double near \<open>x\<close>: 53 significant bits,
  and no finer than \<open>2 ^ -1074\<close> (the subnormal range).
\<close>

definition quantum :: "rat \<Rightarrow> int" where
  "quantum x = max (exponent x - 52) (- 1074)"

definition float_round_pos :: "rat \<Rightarrow> rat" where
  "float_round_pos x = of_int (round_half_even (x / 2 powi quantum x)) * 2 powi quantum x"

definition float_round :: "rat \<Rightarrow> rat" where
  "float_round x =
     (if x = 0 then 0 else if 0 < x then float_round_pos x else - float_round_pos (- x))"

text \<open>\<^verbatim>\<open>a / b\<close> for a non-zero divisor, and \<^verbatim>\<open>a * b\<close>, on floats.\<close>

definition float_div :: "rat \<Rightarrow> rat \<Rightarrow> rat" where
  "float_div a b = float_round (a / b)"

definition float_mul :: "rat \<Rightarrow> rat \<Rightarrow> rat" where
  "float_mul a b = float_round (a * b)"

text \<open>The conversion of an integer count to a float.\<close>

definition to_float :: "nat \<Rightarrow> rat" where
  "to_float n = float_round (of_nat n)"

subsection \<open>\<^verbatim>\<open>generate_itemsets\<close>\<close>

text \<open>
  \<^verbatim>\<open>
  def generate_itemsets(items):
      subsets = [[]]
      for item in items:
          new_combinations = [subset + [item] for subset in subsets]
          subsets.extend(new_combinations)
      return subsets[1:]
  \<close>
\<close>

definition extend_subsets :: "'a \<Rightarrow> 'a list list \<Rightarrow> 'a list list" where
  "extend_subsets item subsets = subsets @ map (\<lambda>subset. subset @ [item]) subsets"

definition generate_itemsets :: "'a list \<Rightarrow> 'a list list" where
  "generate_itemsets items = drop 1 (fold extend_subsets items [[]])"

subsection \<open>Library operations used by \<^verbatim>\<open>brute_force_association\<close>\<close>

text \<open>The distinct elements of a list, in the order of their first occurrence.\<close>

primrec unique :: "'a list \<Rightarrow> 'a list" where
  "unique [] = []"
| "unique (x # xs) = x # filter (\<lambda>y. y \<noteq> x) (unique xs)"

text \<open>
  \<^verbatim>\<open>pd.Series(xs).value_counts()\<close>: one entry per distinct value with the number of its
  occurrences, by descending count. Entries with equal counts are kept in the order of
  first occurrence (the sort is taken to be stable).
\<close>

definition value_counts :: "'a list \<Rightarrow> ('a \<times> nat) list" where
  "value_counts xs =
     sort_key (\<lambda>p. - int (snd p)) (map (\<lambda>x. (x, count_list xs x)) (unique xs))"

text \<open>
  Python's \<^verbatim>\<open>set(x)\<close> on a cell of the \<^verbatim>\<open>Itemsets\<close> column. The set of a tuple is the
  set of its items; the set of a string is the set of its characters, each a string of
  length one.
\<close>

fun py_set :: "itemset \<Rightarrow> string set" where
  "py_set (Str s) = (\<lambda>c. [c]) ` set s"
| "py_set (Tup t) = set t"

text \<open>\<^verbatim>\<open>d[k]\<close> on a dict.\<close>

definition getitem :: "('k \<times> 'v) list \<Rightarrow> 'k \<Rightarrow> error + 'v" where
  "getitem d k = (case map_of d k of None \<Rightarrow> Inl KeyError | Some v \<Rightarrow> Inr v)"

text \<open>\<^verbatim>\<open>dict(pairs)\<close>: the pairs are inserted from left to right.\<close>

definition dict :: "('k \<times> 'v) list \<Rightarrow> ('k \<times> 'v) list" where
  "dict pairs = fold (\<lambda>(k, v) d. AList.update k v d) pairs []"

text \<open>A \<^verbatim>\<open>for\<close> loop whose body may raise: the first exception ends the loop.\<close>

fun for_each :: "('a \<Rightarrow> 's \<Rightarrow> error + 's) \<Rightarrow> 'a list \<Rightarrow> 's \<Rightarrow> error + 's" where
  "for_each body [] s = Inr s"
| "for_each body (x # xs) s =
     (case body x s of Inl e \<Rightarrow> Inl e | Inr s' \<Rightarrow> for_each body xs s')"

subsection \<open>\<^verbatim>\<open>brute_force_association\<close>: the frequent itemsets\<close>

text \<open>
  \<^verbatim>\<open>
  num_transactions = len(transactions)
  item_list = [item for sublist in transactions for item in sublist]
  item_counts = pd.Series(item_list).value_counts()
  \<close>
\<close>

definition item_counts :: "item list list \<Rightarrow> (item \<times> nat) list" where
  "item_counts transactions = value_counts (concat transactions)"

text \<open>
  \<^verbatim>\<open>item_counts[item_counts >= (min_support / 100) * num_transactions]\<close>
\<close>

definition freq_counts :: "item list list \<Rightarrow> rat \<Rightarrow> (item \<times> nat) list" where
  "freq_counts transactions min_support =
     filter (\<lambda>(item, c).
               float_mul (float_div min_support 100) (to_float (length transactions)) \<le> to_float c)
       (item_counts transactions)"

text \<open>
  \<^verbatim>\<open>
  freq_items = ....reset_index()
  freq_items.columns = ["Itemsets", "Frequency"]
  freq_items["Support"] = (freq_items["Frequency"] / num_transactions) * 100
  \<close>
  The division is the element-wise one of pandas, evaluated once per row (a table with a
  row has at least one transaction, see \<open>freq_counts_positive\<close>).
\<close>

definition freq_items :: "item list list \<Rightarrow> rat \<Rightarrow> freq_row list" where
  "freq_items transactions min_support =
     map (\<lambda>(item, c). \<lparr>Itemsets = Str item, Frequency = c,
            Support = float_mul (float_div (to_float c) (to_float (length transactions))) 100\<rparr>)
       (freq_counts transactions min_support)"

text \<open>
  \<^verbatim>\<open>
  potential_itemsets = generate_itemsets(freq_items["Itemsets"])
  valid_itemsets = [iset for iset in potential_itemsets if len(iset) > 1]
  \<close>
  The column \<^verbatim>\<open>freq_items["Itemsets"]\<close> holds the item strings of \<^const>\<open>freq_counts\<close>.
\<close>

definition valid_itemsets :: "item list list \<Rightarrow> rat \<Rightarrow> item list list" where
  "valid_itemsets transactions min_support =
     filter (\<lambda>iset. length iset > 1)
       (generate_itemsets (map fst (freq_counts transactions min_support)))"

text \<open>
  \<^verbatim>\<open>
  itemset_occurrences = {}
  for i_set in valid_itemsets:
      count = sum(1 for transaction in transactions if set(i_set).issubset(set(transaction)))
      itemset_occurrences[tuple(i_set)] = count
  \<close>
\<close>

definition count_occurrences :: "item list list \<Rightarrow> item list \<Rightarrow> nat" where
  "count_occurrences transactions i_set =
     length (filter (\<lambda>transaction. set i_set \<subseteq> set transaction) transactions)"

definition itemset_occurrences :: "item list list \<Rightarrow> rat \<Rightarrow> (item list \<times> nat) list" where
  "itemset_occurrences transactions min_support =
     fold (\<lambda>i_set d. AList.update i_set (count_occurrences transactions i_set) d)
       (valid_itemsets transactions min_support) []"

text \<open>
  \<^verbatim>\<open>
  itemset_df = pd.DataFrame(list(itemset_occurrences.items()), columns=["Itemsets", "Frequency"])
  itemset_df["Support"] = (itemset_df["Frequency"] / num_transactions) * 100
  \<close>
\<close>

definition itemset_df :: "item list list \<Rightarrow> rat \<Rightarrow> freq_row list" where
  "itemset_df transactions min_support =
     map (\<lambda>(t, c). \<lparr>Itemsets = Tup t, Frequency = c,
            Support = float_mul (float_div (to_float c) (to_float (length transactions))) 100\<rparr>)
       (itemset_occurrences transactions min_support)"

text \<open>
  \<^verbatim>\<open>
  all_frequent_items = pd.concat([freq_items, itemset_df[itemset_df["Support"] >= min_support]],
                                 ignore_index=True)
  \<close>
\<close>

definition all_frequent_items :: "item list list \<Rightarrow> rat \<Rightarrow> freq_row list" where
  "all_frequent_items transactions min_support =
     freq_items transactions min_support
     @ filter (\<lambda>r. min_support \<le> Support r) (itemset_df transactions min_support)"

subsection \<open>\<^verbatim>\<open>brute_force_association\<close>: the rules\<close>

text \<open>
  \<^verbatim>\<open>item_support_map = dict(zip(all_frequent_items["Itemsets"], all_frequent_items["Support"]))\<close>
\<close>

definition item_support_map :: "freq_row list \<Rightarrow> (itemset \<times> rat) list" where
  "item_support_map rows = dict (zip (map Itemsets rows) (map Support rows))"

text \<open>
  The body of the inner loop, on the state \<open>(association_dict, support_values)\<close>:
  \<^verbatim>\<open>
  if set(consequent).issubset(set(antecedent)) and antecedent != consequent:
      conf_value = (item_support_map[antecedent] / item_support_map[consequent]) * 100
      association_dict[(antecedent, consequent)] = conf_value
      support_values.append(item_support_map[antecedent])
  \<close>
  The supports are Python floats, so a zero divisor raises \<^verbatim>\<open>ZeroDivisionError\<close>.
\<close>

type_synonym rule_state = "((itemset \<times> itemset) \<times> rat) list \<times> rat list"

definition rule_condition :: "itemset \<Rightarrow> itemset \<Rightarrow> bool" where
  "rule_condition antecedent consequent \<longleftrightarrow>
     py_set consequent \<subseteq> py_set antecedent \<and> antecedent \<noteq> consequent"

definition rule_step ::
  "(itemset \<times> rat) list \<Rightarrow> itemset \<Rightarrow> itemset \<Rightarrow> rule_state \<Rightarrow> error + rule_state" where
  "rule_step support_map antecedent consequent st =
     (if rule_condition antecedent consequent then
        (case getitem support_map antecedent of
           Inl e \<Rightarrow> Inl e
         | Inr sa \<Rightarrow>
             (case getitem support_map consequent of
                Inl e \<Rightarrow> Inl e
              | Inr sc \<Rightarrow>
                  if sc = 0 then Inl ZeroDivisionError
                  else Inr (AList.update (antecedent, consequent)
                              (float_mul (float_div sa sc) 100) (fst st),
                            snd st @ [sa])))
      else Inr st)"

text \<open>
  \<^verbatim>\<open>
  for antecedent in item_support_map:
      for consequent in item_support_map:
          ...
  \<close>
\<close>

definition rule_loops :: "(itemset \<times> rat) list \<Rightarrow> error + rule_state" where
  "rule_loops support_map =
     for_each (\<lambda>antecedent. for_each (rule_step support_map antecedent) (map fst support_map))
       (map fst support_map) ([], [])"

text \<open>
  \<^verbatim>\<open>
  rule_df = pd.DataFrame(association_dict.items(), columns=["Rules", "Confidence"])
  rule_df["Support"] = support_values
  rule_df = rule_df[rule_df["Confidence"] >= min_confidence].reset_index(drop=True)
  \<close>
  Assigning a column whose length differs from the number of rows raises \<^verbatim>\<open>ValueError\<close>.
\<close>

definition rule_df :: "rule_state \<Rightarrow> rat \<Rightarrow> error + rule_row list" where
  "rule_df st min_confidence =
     (if length (snd st) \<noteq> length (fst st) then Inl ValueError
      else Inr (filter (\<lambda>r. min_confidence \<le> Confidence r)
             (map (\<lambda>((rule, conf), s). \<lparr>Rules = rule, Confidence = conf, Rule_Support = s\<rparr>)
                (zip (fst st) (snd st)))))"

definition brute_force_association ::
  "item list list \<Rightarrow> rat \<Rightarrow> rat \<Rightarrow> error + (rule_row list \<times> freq_row list)" where
  "brute_force_association transactions min_support min_confidence =
     (let all_frequent = all_frequent_items transactions min_support in
      case rule_loops (item_support_map all_frequent) of
        Inl e \<Rightarrow> Inl e
      | Inr st \<Rightarrow>
          (case rule_df st min_confidence of
             Inl e \<Rightarrow> Inl e
           | Inr rules \<Rightarrow> Inr (rules, all_frequent)))"

subsection \<open>Notions used to state the properties\<close>

text \<open>
  The itemset a cell of the \<^verbatim>\<open>Itemsets\<close> column stands for, as a set of item tokens:
  a bare string is the single item it names, a tuple is the set of its components.
\<close>

fun tokens :: "itemset \<Rightarrow> item set" where
  "tokens (Str s) = {s}"
| "tokens (Tup t) = set t"

text \<open>The support recorded for an itemset in a frequent-itemset table.\<close>

definition support_in :: "freq_row list \<Rightarrow> itemset \<Rightarrow> rat option" where
  "support_in table = map_of (map (\<lambda>r. (Itemsets r, Support r)) table)"

text \<open>
  The pairs the two nested loops of the rule stage select, in the order they are visited.
\<close>

definition rule_pairs :: "itemset list \<Rightarrow> (itemset \<times> itemset) list" where
  "rule_pairs keys =
     concat (map (\<lambda>a. map (\<lambda>c. (a, c)) (filter (rule_condition a) keys)) keys)"

section \<open>Properties of the rounding\<close>

lemma round_half_even_bounds:
  "\<lfloor>m\<rfloor> \<le> round_half_even m" "round_half_even m \<le> \<lfloor>m\<rfloor> + 1"
  by (simp_all add: round_half_even_def Let_def)

lemma round_half_even_of_int [simp]: "round_half_even (of_int n) = n"
  by (simp add: round_half_even_def)

lemma round_half_even_mono:
  assumes "a \<le> b"
  shows "round_half_even a \<le> round_half_even b"
proof (cases "\<lfloor>a\<rfloor> = \<lfloor>b\<rfloor>")
  case True
  then have "a - of_int \<lfloor>a\<rfloor> \<le> b - of_int \<lfloor>b\<rfloor>" using assms by simp
  then show ?thesis using True by (auto simp: round_half_even_def Let_def)
next
  case False
  then have "\<lfloor>a\<rfloor> < \<lfloor>b\<rfloor>" using floor_mono [OF assms] by simp
  then have "round_half_even a \<le> \<lfloor>b\<rfloor>"
    using round_half_even_bounds(2) [of a] by simp
  then show ?thesis using round_half_even_bounds(1) [of b] by simp
qed

lemma of_int_bitlen_bounds:
  assumes "0 < p"
  shows "(2::rat) powi (bitlen p - 1) \<le> of_int p" and "of_int p < (2::rat) powi bitlen p"
proof -
  have b: "1 \<le> bitlen p" using assms bitlen_eq_zero_iff [of p] bitlen_nonneg [of p] by linarith
  from bitlen_bounds [OF assms]
  have 1: "2 ^ nat (bitlen p - 1) \<le> p" and 2: "p < 2 ^ nat (bitlen p)" by simp_all
  have "(of_int (2 ^ nat (bitlen p - 1)) :: rat) \<le> of_int p" using 1 by (simp only: of_int_le_iff)
  then show "(2::rat) powi (bitlen p - 1) \<le> of_int p"
    using b by (simp add: power_int_nonneg_exp)
  have "(of_int p :: rat) < of_int (2 ^ nat (bitlen p))" using 2 by (simp only: of_int_less_iff)
  then show "of_int p < (2::rat) powi bitlen p"
    using b by (simp add: power_int_nonneg_exp)
qed

lemma exponent_bounds:
  assumes "0 < x"
  shows "2 powi exponent x \<le> x" and "x < 2 powi (exponent x + 1)"
proof -
  obtain p q where pq: "quotient_of x = (p, q)" by (cases "quotient_of x")
  have q: "0 < q" using pq by (rule quotient_of_denom_pos)
  have x: "x = of_int p / of_int q" using pq by (rule quotient_of_div)
  have p: "0 < p" using assms q unfolding x by (simp add: zero_less_divide_iff)
  let ?e = "bitlen p - bitlen q"
  note bp = of_int_bitlen_bounds [OF p] and bq = of_int_bitlen_bounds [OF q]
  have qpos: "(0::rat) < of_int q" using q by simp
  have lower: "2 powi (?e - 1) \<le> x"
  proof -
    have "(2::rat) powi (?e - 1) = 2 powi (bitlen p - 1) / 2 powi bitlen q"
      by (simp add: power_int_diff [symmetric] algebra_simps)
    also have "\<dots> \<le> of_int p / 2 powi bitlen q"
      using bp(1) by (intro divide_right_mono) simp_all
    also have "\<dots> \<le> of_int p / of_int q"
      using bq(2) p qpos by (intro divide_left_mono) (simp_all add: less_imp_le)
    finally show ?thesis unfolding x .
  qed
  have upper: "x < 2 powi (?e + 1)"
  proof -
    have "x \<le> of_int p / 2 powi (bitlen q - 1)"
      unfolding x using bq(1) p qpos by (intro divide_left_mono) simp_all
    also have "\<dots> < 2 powi bitlen p / 2 powi (bitlen q - 1)"
      using bp(2) by (intro divide_strict_right_mono) simp_all
    also have "\<dots> = (2::rat) powi (?e + 1)"
      by (simp add: power_int_diff [symmetric] algebra_simps)
    finally show ?thesis .
  qed
  have e: "exponent x = (if 2 powi ?e \<le> x then ?e else ?e - 1)"
    by (simp add: exponent_def pq)
  show "2 powi exponent x \<le> x" using lower by (simp add: e)
  show "x < 2 powi (exponent x + 1)" using upper by (auto simp: e)
qed

lemma exponent_mono:
  assumes "0 < x" "x \<le> y"
  shows "exponent x \<le> exponent y"
proof -
  have "(2::rat) powi exponent x \<le> x" using assms(1) by (rule exponent_bounds)
  also have "x \<le> y" by fact
  also have "y < 2 powi (exponent y + 1)" using assms by (intro exponent_bounds) simp
  finally have "(2::rat) powi exponent x < 2 powi (exponent y + 1)" .
  moreover have "(2::rat) powi (exponent y + 1) \<le> 2 powi exponent x"
    if "exponent y + 1 \<le> exponent x"
    using that by (intro power_int_increasing) simp_all
  ultimately show ?thesis by force
qed

lemma pow2_div_is_int:
  assumes "k \<le> e"
  shows "(2::rat) powi e / 2 powi k = of_int (2 ^ nat (e - k))"
proof -
  have "(2::rat) powi e / 2 powi k = 2 powi (e - k)"
    by (simp add: power_int_diff)
  also have "\<dots> = of_int (2 ^ nat (e - k))"
    using assms by (simp add: power_int_nonneg_exp)
  finally show ?thesis .
qed

lemma grid_point_fixed:
  assumes "k \<le> e"
  shows "of_int (round_half_even (2 powi e / 2 powi k)) * 2 powi k = (2::rat) powi e"
proof -
  have "of_int (round_half_even (2 powi e / 2 powi k)) * 2 powi k
      = (2 powi e / 2 powi k) * (2::rat) powi k"
    by (simp only: pow2_div_is_int [OF assms] round_half_even_of_int)
  also have "\<dots> = 2 powi e" by simp
  finally show ?thesis .
qed

lemma round_to_grid_mono:
  assumes "a \<le> b"
  shows "of_int (round_half_even (a / 2 powi k)) * (2::rat) powi k
       \<le> of_int (round_half_even (b / 2 powi k)) * 2 powi k"
proof -
  have "a / 2 powi k \<le> b / (2::rat) powi k"
    using assms by (intro divide_right_mono) simp_all
  then have "round_half_even (a / 2 powi k) \<le> round_half_even (b / 2 powi k)"
    by (rule round_half_even_mono)
  then have "(of_int (round_half_even (a / 2 powi k)) :: rat)
           \<le> of_int (round_half_even (b / 2 powi k))"
    by (simp only: of_int_le_iff)
  then show ?thesis by (intro mult_right_mono) simp_all
qed

lemma float_round_pos_mono:
  assumes "0 < x" "x \<le> y"
  shows "float_round_pos x \<le> float_round_pos y"
proof -
  have y: "0 < y" using assms by simp
  have e: "exponent x \<le> exponent y" using assms by (rule exponent_mono)
  then have q: "quantum x \<le> quantum y" by (simp add: quantum_def)
  show ?thesis
  proof (cases "quantum x = quantum y")
    case True
    then show ?thesis
      unfolding float_round_pos_def using round_to_grid_mono [OF assms(2), of "quantum y"] by simp
  next
    case False
    then have lt: "quantum x < quantum y" using q by simp
    then have qy: "quantum y = exponent y - 52" and ex: "exponent x < exponent y"
      by (auto simp: quantum_def max_def split: if_splits)
    let ?B = "(2::rat) powi exponent y"
    have kx: "quantum x \<le> exponent y" and ky: "quantum y \<le> exponent y"
      using lt qy by simp_all
    have "x < 2 powi (exponent x + 1)" using assms(1) by (rule exponent_bounds)
    also have "\<dots> \<le> ?B" using ex by (intro power_int_increasing) simp_all
    finally have xB: "x \<le> ?B" by simp
    have By: "?B \<le> y" using y by (rule exponent_bounds)
    have "float_round_pos x \<le> of_int (round_half_even (?B / 2 powi quantum x)) * 2 powi quantum x"
      unfolding float_round_pos_def by (rule round_to_grid_mono [OF xB])
    also have "\<dots> = ?B" by (rule grid_point_fixed [OF kx])
    also have "\<dots> = of_int (round_half_even (?B / 2 powi quantum y)) * 2 powi quantum y"
      by (rule grid_point_fixed [OF ky, symmetric])
    also have "\<dots> \<le> float_round_pos y"
      unfolding float_round_pos_def by (rule round_to_grid_mono [OF By])
    finally show ?thesis .
  qed
qed

lemma float_round_pos_nonneg: "0 \<le> x \<Longrightarrow> 0 \<le> float_round_pos x"
proof -
  assume "0 \<le> x"
  then have "0 \<le> x / (2::rat) powi quantum x" by simp
  then have "0 \<le> \<lfloor>x / (2::rat) powi quantum x\<rfloor>" by simp
  then have "0 \<le> round_half_even (x / 2 powi quantum x)"
    using round_half_even_bounds(1) [of "x / 2 powi quantum x"] by linarith
  then show ?thesis by (simp add: float_round_pos_def)
qed

lemma float_round_mono:
  assumes "x \<le> y"
  shows "float_round x \<le> float_round y"
proof -
  consider "0 < x" | "x = 0" | "x < 0" "y < 0" | "x < 0" "0 \<le> y" by linarith
  then show ?thesis
  proof cases
    case 1
    then show ?thesis using assms float_round_pos_mono [of x y] by (simp add: float_round_def)
  next
    case 2
    then show ?thesis using assms float_round_pos_nonneg [of y] by (simp add: float_round_def)
  next
    case 3
    then have "float_round_pos (- y) \<le> float_round_pos (- x)" using assms by (intro float_round_pos_mono) simp_all
    then show ?thesis using 3 by (simp add: float_round_def)
  next
    case 4
    have "0 \<le> float_round_pos (- x)" using 4(1) by (intro float_round_pos_nonneg) simp
    moreover have "0 \<le> float_round y" using 4(2) float_round_pos_nonneg [of y] by (simp add: float_round_def)
    ultimately show ?thesis using 4(1) by (simp add: float_round_def)
  qed
qed

section \<open>Properties of \<^verbatim>\<open>generate_itemsets\<close>\<close>

lemma length_fold_extend:
  "length (fold extend_subsets xs S) = length S * 2 ^ length xs"
  by (induction xs arbitrary: S) (simp_all add: extend_subsets_def)

lemma subseq_Cons_right_iff:
  "subseq t (x # xs) \<longleftrightarrow> subseq t xs \<or> (\<exists>t'. t = x # t' \<and> subseq t' xs)"
proof (cases t)
  case Nil
  then show ?thesis by simp
next
  case (Cons y t')
  then show ?thesis by (auto dest: subseq_Cons')
qed

lemma subseq_Nil_right_iff: "subseq t [] \<longleftrightarrow> t = []"
  by (cases t) simp_all

lemma set_fold_extend:
  "set (fold extend_subsets xs S) = {s @ t | s t. s \<in> set S \<and> subseq t xs}"
proof (induction xs arbitrary: S)
  case Nil
  then show ?case by (simp add: subseq_Nil_right_iff)
next
  case (Cons x xs)
  have "set (fold extend_subsets (x # xs) S)
      = {s @ t | s t. s \<in> set (extend_subsets x S) \<and> subseq t xs}"
    using Cons.IH by simp
  also have "\<dots> = {s @ t | s t. s \<in> set S \<and> subseq t (x # xs)}" (is "?L = ?R")
  proof
    show "?L \<subseteq> ?R"
    proof
      fix u assume "u \<in> ?L"
      then obtain s t where u: "u = s @ t" and s: "s \<in> set (extend_subsets x S)"
        and t: "subseq t xs" by blast
      from s consider "s \<in> set S" | s0 where "s0 \<in> set S" "s = s0 @ [x]"
        by (auto simp: extend_subsets_def)
      then show "u \<in> ?R"
      proof cases
        case 1
        moreover have "subseq t (x # xs)" using t by (simp add: subseq_Cons_right_iff)
        ultimately show ?thesis using u by blast
      next
        case 2
        then have "u = s0 @ (x # t)" using u by simp
        moreover have "subseq (x # t) (x # xs)" using t by simp
        ultimately show ?thesis using 2(1) by blast
      qed
    qed
  next
    show "?R \<subseteq> ?L"
    proof
      fix u assume "u \<in> ?R"
      then obtain s t where u: "u = s @ t" and s: "s \<in> set S"
        and t: "subseq t (x # xs)" by blast
      from t consider "subseq t xs" | t' where "t = x # t'" "subseq t' xs"
        unfolding subseq_Cons_right_iff [of t x xs] by blast
      then show "u \<in> ?L"
      proof cases
        case 1
        moreover have "s \<in> set (extend_subsets x S)"
          using s by (simp add: extend_subsets_def)
        ultimately show ?thesis using u by blast
      next
        case 2
        then have "u = (s @ [x]) @ t'" using u by simp
        moreover have "s @ [x] \<in> set (extend_subsets x S)"
          using s by (simp add: extend_subsets_def)
        ultimately show ?thesis using 2(2) by blast
      qed
    qed
  qed
  finally show ?case .
qed

lemma fold_extend_Cons:
  "\<exists>rest. fold extend_subsets xs (s # S) = s # rest"
  by (induction xs arbitrary: S) (simp_all add: extend_subsets_def)

lemma subseq_set_subset: "subseq t xs \<Longrightarrow> set t \<subseteq> set xs"
  by (auto dest: list_emb_set)

lemma subseq_eq_filter:
  "subseq t xs \<Longrightarrow> distinct xs \<Longrightarrow> t = filter (\<lambda>x. x \<in> set t) xs"
proof (induction rule: list_emb.induct)
  case (list_emb_Nil ys)
  then show ?case by simp
next
  case (list_emb_Cons xs ys y)
  then have "y \<notin> set xs" using subseq_set_subset by fastforce
  with list_emb_Cons show ?case by simp
next
  case (list_emb_Cons2 x y xs ys)
  then have xy: "x = y" and "y \<notin> set ys" and d: "distinct ys" by simp_all
  then have "filter (\<lambda>z. z \<in> set (x # xs)) ys = filter (\<lambda>z. z \<in> set xs) ys"
    by (intro filter_cong) auto
  with list_emb_Cons2 xy d show ?case by simp
qed

lemma subseq_distinct: "subseq t xs \<Longrightarrow> distinct xs \<Longrightarrow> distinct t"
  by (metis subseq_eq_filter distinct_filter)

lemma set_subseq_Pow:
  "set ` {t. subseq t xs} = Pow (set xs)"
proof
  show "set ` {t. subseq t xs} \<subseteq> Pow (set xs)"
    by (auto dest: subseq_set_subset)
next 
  show "Pow (set xs) \<subseteq> set ` {t. subseq t xs}"
  proof
    fix A assume "A \<in> Pow (set xs)"
    then have "set (filter (\<lambda>x. x \<in> A) xs) = A" by auto
    moreover have "subseq (filter (\<lambda>x. x \<in> A) xs) xs" by simp
    ultimately show "A \<in> set ` {t. subseq t xs}" by blast
  qed
qed

lemma set_fold_extend_Nil:
  "set (fold extend_subsets xs [[]]) = {t. subseq t xs}"
  by (simp add: set_fold_extend)

lemma distinct_map_set_fold_extend:
  assumes "distinct xs"
  shows "distinct (map set (fold extend_subsets xs [[]]))"
proof (rule card_distinct)
  have "set (map set (fold extend_subsets xs [[]])) = Pow (set xs)"
    by (simp add: set_fold_extend_Nil set_subseq_Pow)
  then have "card (set (map set (fold extend_subsets xs [[]]))) = 2 ^ length xs"
    using assms by (simp add: card_Pow distinct_card)
  then show "card (set (map set (fold extend_subsets xs [[]])))
           = length (map set (fold extend_subsets xs [[]]))"
    by (simp add: length_fold_extend)
qed

lemma distinct_map_set_generate_itemsets:
  assumes "distinct xs"
  shows "distinct (map set (generate_itemsets xs))"
proof -
  have "distinct (drop 1 (map set (fold extend_subsets xs [[]])))"
    using distinct_map_set_fold_extend [OF assms] by (rule distinct_drop)
  then show ?thesis by (simp add: generate_itemsets_def drop_map)
qed

lemma set_generate_itemsets:
  assumes "distinct xs"
  shows "set (generate_itemsets xs) = {t. subseq t xs \<and> t \<noteq> []}"
proof -
  obtain rest where r: "fold extend_subsets xs [[]] = [] # rest"
    using fold_extend_Cons by blast
  have "distinct (fold extend_subsets xs [[]])"
    using distinct_map_set_fold_extend [OF assms] by (simp add: distinct_map)
  then have "[] \<notin> set rest" using r by simp
  moreover have "insert [] (set rest) = {t. subseq t xs}"
    using set_fold_extend_Nil [of xs] r by simp
  ultimately have "set rest = {t. subseq t xs} - {[]}"
    by (metis Diff_insert_absorb)
  also have "\<dots> = {t. subseq t xs \<and> t \<noteq> []}" by blast
  finally show ?thesis by (simp add: generate_itemsets_def r)
qed


section \<open>The frequent-itemset table\<close>

lemma set_unique: "set (unique xs) = set xs"
  by (induction xs) auto

lemma distinct_unique: "distinct (unique xs)"
  by (induction xs) (auto simp: set_unique)

lemma distinct_map_fst_insort_key:
  "distinct (map fst (insort_key f x xs)) = distinct (map fst (x # xs))"
  by (induction xs) (auto simp: set_insort_key)

lemma distinct_map_fst_sort_key:
  "distinct (map fst (sort_key f xs)) = distinct (map fst xs)"
  by (induction xs) (simp_all add: distinct_map_fst_insort_key)

lemma distinct_value_counts: "distinct (map fst (value_counts xs))"
  by (simp add: value_counts_def distinct_map_fst_sort_key comp_def distinct_unique)

lemma set_value_counts:
  "set (value_counts xs) = (\<lambda>x. (x, count_list xs x)) ` set xs"
  by (simp add: value_counts_def set_unique)

lemma distinct_freq_counts: "distinct (map fst (freq_counts transactions min_support))"
  unfolding freq_counts_def item_counts_def
  by (rule distinct_map_filter) (rule distinct_value_counts)

lemma freq_counts_positive:
  assumes "(item, c) \<in> set (freq_counts transactions min_support)"
  shows "0 < c" and "transactions \<noteq> []" and "c = count_list (concat transactions) item"
    and "float_mul (float_div min_support 100) (to_float (length transactions)) \<le> to_float c"
proof -
  from assms have m: "item \<in> set (concat transactions)"
    and c: "c = count_list (concat transactions) item"
    by (auto simp: freq_counts_def item_counts_def set_value_counts)
  show "c = count_list (concat transactions) item" by (rule c)
  show "0 < c" using m c count_list_0_iff [of "concat transactions" item] by auto
  show "transactions \<noteq> []" using m by auto
  show "float_mul (float_div min_support 100) (to_float (length transactions)) \<le> to_float c"
    using assms by (auto simp: freq_counts_def)
qed

lemma update_fresh:
  "k \<notin> fst ` set al \<Longrightarrow> AList.update k v al = al @ [(k, v)]"
  by (induction al) auto

lemma fold_update_fresh:
  "distinct (map fst kvs) \<Longrightarrow> fst ` set kvs \<inter> fst ` set acc = {}
   \<Longrightarrow> fold (\<lambda>(k, v) d. AList.update k v d) kvs acc = acc @ kvs"
proof (induction kvs arbitrary: acc)
  case Nil
  then show ?case by simp
next
  case (Cons kv kvs)
  obtain k v where kv: "kv = (k, v)" by (cases kv)
  have fresh: "k \<notin> fst ` set acc" using Cons.prems(2) kv by auto
  have "fold (\<lambda>(k, v) d. AList.update k v d) (kv # kvs) acc
      = fold (\<lambda>(k, v) d. AList.update k v d) kvs (acc @ [(k, v)])"
    using fresh by (simp add: kv update_fresh)
  also have "\<dots> = (acc @ [(k, v)]) @ kvs"
  proof (rule Cons.IH)
    show "distinct (map fst kvs)" using Cons.prems(1) by simp
    show "fst ` set kvs \<inter> fst ` set (acc @ [(k, v)]) = {}"
      using Cons.prems kv by auto
  qed
  finally show ?case by (simp add: kv)
qed

lemma dict_distinct: "distinct (map fst kvs) \<Longrightarrow> dict kvs = kvs"
  using fold_update_fresh [of kvs "[]"] by (simp add: dict_def)

lemma distinct_valid_itemsets: "distinct (valid_itemsets transactions min_support)"
proof -
  have "distinct (map set (generate_itemsets (map fst (freq_counts transactions min_support))))"
    using distinct_freq_counts by (rule distinct_map_set_generate_itemsets)
  then have "distinct (generate_itemsets (map fst (freq_counts transactions min_support)))"
    by (simp add: distinct_map)
  then show ?thesis by (simp add: valid_itemsets_def)
qed

lemma itemset_occurrences_eq:
  "itemset_occurrences transactions min_support =
     map (\<lambda>i_set. (i_set, count_occurrences transactions i_set))
       (valid_itemsets transactions min_support)"
proof -
  let ?kvs = "map (\<lambda>i_set. (i_set, count_occurrences transactions i_set))
       (valid_itemsets transactions min_support)"
  have "itemset_occurrences transactions min_support = dict ?kvs"
    by (simp add: itemset_occurrences_def dict_def fold_map comp_def)
  moreover have "distinct (map fst ?kvs)"
    by (simp add: comp_def distinct_valid_itemsets)
  ultimately show ?thesis by (simp add: dict_distinct)
qed

section \<open>The rule loops\<close>

lemma getitem_Some: "map_of d k = Some v \<Longrightarrow> getitem d k = Inr v"
  by (simp add: getitem_def)

lemma inner_loop:
  assumes "map_of m a = Some sa" and "set cs \<subseteq> fst ` set m" and "distinct cs"
    and "\<forall>c\<in>set cs. (a, c) \<notin> fst ` set (fst st)"
  shows "for_each (rule_step m a) cs st =
     (if \<exists>c\<in>set cs. rule_condition a c \<and> map_of m c = Some 0 then Inl ZeroDivisionError
      else Inr (fst st @ map (\<lambda>c. ((a, c), float_mul (float_div sa (the (map_of m c))) 100))
                          (filter (rule_condition a) cs),
                snd st @ map (\<lambda>c. sa) (filter (rule_condition a) cs)))"
  using assms(2-)
proof (induction cs arbitrary: st)
  case Nil
  then show ?case by simp
next
  case (Cons c cs)
  from Cons.prems(1) obtain sc where sc: "map_of m c = Some sc"
    by (metis list.set_intros(1) subsetD weak_map_of_SomeI map_of_eq_None_iff not_Some_eq)
  have sub: "set cs \<subseteq> fst ` set m" and dis: "distinct cs" and cn: "c \<notin> set cs"
    using Cons.prems by simp_all
  show ?case
  proof (cases "rule_condition a c")
    case False
    have "for_each (rule_step m a) (c # cs) st = for_each (rule_step m a) cs st"
      using False by (simp add: rule_step_def)
    also have "\<dots> = (if \<exists>c\<in>set cs. rule_condition a c \<and> map_of m c = Some 0
        then Inl ZeroDivisionError
        else Inr (fst st @ map (\<lambda>c. ((a, c), float_mul (float_div sa (the (map_of m c))) 100))
                          (filter (rule_condition a) cs),
                snd st @ map (\<lambda>c. sa) (filter (rule_condition a) cs)))"
      using Cons.prems(3) by (intro Cons.IH sub dis) simp
    finally show ?thesis using False by simp
  next
    case True
    show ?thesis
    proof (cases "sc = 0")
      case z: True
      then show ?thesis
        using True sc assms(1) by (simp add: rule_step_def getitem_Some)
    next
      case nz: False
      let ?st' = "(fst st @ [((a, c), float_mul (float_div sa sc) 100)], snd st @ [sa])"
      have fresh: "(a, c) \<notin> fst ` set (fst st)" using Cons.prems(3) by simp
      have step: "rule_step m a c st = Inr ?st'"
        using True nz sc assms(1) by (simp add: rule_step_def getitem_Some update_fresh [OF fresh])
      have "for_each (rule_step m a) (c # cs) st = for_each (rule_step m a) cs ?st'"
        by (simp add: step)
      also have "\<dots> = (if \<exists>c\<in>set cs. rule_condition a c \<and> map_of m c = Some 0
        then Inl ZeroDivisionError
        else Inr (fst ?st' @ map (\<lambda>c. ((a, c), float_mul (float_div sa (the (map_of m c))) 100))
                          (filter (rule_condition a) cs),
                snd ?st' @ map (\<lambda>c. sa) (filter (rule_condition a) cs)))"
      proof (intro Cons.IH sub dis)
        show "\<forall>c'\<in>set cs. (a, c') \<notin> fst ` set (fst ?st')"
          using Cons.prems(3) cn by auto
      qed
      finally show ?thesis using True nz sc by simp
    qed
  qed
qed

lemma outer_loop:
  fixes m :: "(itemset \<times> rat) list"
  defines "Z \<equiv> \<lambda>a. \<exists>c\<in>set (map fst m). rule_condition a c \<and> map_of m c = Some 0"
    and "X \<equiv> \<lambda>a. map (\<lambda>c. ((a, c), float_mul (float_div (the (map_of m a)) (the (map_of m c))) 100))
                    (filter (rule_condition a) (map fst m))"
    and "Y \<equiv> \<lambda>a. map (\<lambda>c. the (map_of m a)) (filter (rule_condition a) (map fst m))"
  assumes dm: "distinct (map fst m)"
    and "set as \<subseteq> fst ` set m" and "distinct as"
    and "\<forall>a\<in>set as. \<forall>c. (a, c) \<notin> fst ` set (fst st)"
  shows "for_each (\<lambda>a. for_each (rule_step m a) (map fst m)) as st =
     (if \<exists>a\<in>set as. Z a then Inl ZeroDivisionError
      else Inr (fst st @ concat (map X as), snd st @ concat (map Y as)))"
  using assms(5-)
proof (induction as arbitrary: st)
  case Nil
  then show ?case by simp
next
  case (Cons a as)
  from Cons.prems(1) obtain sa where sa: "map_of m a = Some sa"
    by (metis list.set_intros(1) subsetD map_of_eq_None_iff not_Some_eq)
  have sub: "set as \<subseteq> fst ` set m" and dis: "distinct as" and an: "a \<notin> set as"
    using Cons.prems by simp_all
  have "\<forall>c\<in>set (map fst m). (a, c) \<notin> fst ` set (fst st)"
    using Cons.prems(3) by simp
  then have inner: "for_each (rule_step m a) (map fst m) st =
     (if Z a then Inl ZeroDivisionError else Inr (fst st @ X a, snd st @ Y a))"
    unfolding Z_def X_def Y_def
    using inner_loop [OF sa _ dm, of st] by (simp only: sa option.sel set_map subset_refl)
  show ?case
  proof (cases "Z a")
    case True
    then show ?thesis using inner by simp
  next
    case False
    let ?st' = "(fst st @ X a, snd st @ Y a)"
    have "for_each (\<lambda>a. for_each (rule_step m a) (map fst m)) (a # as) st
        = for_each (\<lambda>a. for_each (rule_step m a) (map fst m)) as ?st'"
      using inner False by simp
    also have "\<dots> =
     (if \<exists>a\<in>set as. Z a then Inl ZeroDivisionError
      else Inr (fst ?st' @ concat (map X as), snd ?st' @ concat (map Y as)))"
    proof (intro Cons.IH sub dis)
      show "\<forall>a'\<in>set as. \<forall>c. (a', c) \<notin> fst ` set (fst ?st')"
      proof (intro ballI allI)
        fix a' c assume a': "a' \<in> set as"
        then have "a' \<noteq> a" using an by blast
        then have "(a', c) \<notin> fst ` set (X a)" by (auto simp: X_def)
        moreover have "(a', c) \<notin> fst ` set (fst st)" using Cons.prems(3) a' by simp
        ultimately show "(a', c) \<notin> fst ` set (fst ?st')" by (simp add: image_Un)
      qed
    qed
    finally show ?thesis using False by simp
  qed
qed

lemma rule_loops_eq:
  assumes "distinct (map fst m)"
  shows "rule_loops m =
     (if \<exists>p\<in>set (rule_pairs (map fst m)). map_of m (snd p) = Some 0
      then Inl ZeroDivisionError
      else Inr (map (\<lambda>p. (p, float_mul (float_div (the (map_of m (fst p))) (the (map_of m (snd p)))) 100))
                  (rule_pairs (map fst m)),
                map (\<lambda>p. the (map_of m (fst p))) (rule_pairs (map fst m))))"
proof -
  have c: "(\<exists>a\<in>set (map fst m). \<exists>c\<in>set (map fst m). rule_condition a c \<and> map_of m c = Some 0)
      \<longleftrightarrow> (\<exists>p\<in>set (rule_pairs (map fst m)). map_of m (snd p) = Some 0)"
    by (auto simp: rule_pairs_def)
  have x: "concat (map (\<lambda>a. map (\<lambda>c. ((a, c), float_mul (float_div (the (map_of m a)) (the (map_of m c))) 100))
                    (filter (rule_condition a) (map fst m))) (map fst m))
        = map (\<lambda>p. (p, float_mul (float_div (the (map_of m (fst p))) (the (map_of m (snd p)))) 100))
                  (rule_pairs (map fst m))"
    by (simp add: rule_pairs_def map_concat comp_def)
  have y: "concat (map (\<lambda>a. map (\<lambda>c. the (map_of m a))
                    (filter (rule_condition a) (map fst m))) (map fst m))
        = map (\<lambda>p. the (map_of m (fst p))) (rule_pairs (map fst m))"
    by (simp add: rule_pairs_def map_concat comp_def)
  have "rule_loops m =
     (if \<exists>a\<in>set (map fst m). \<exists>c\<in>set (map fst m). rule_condition a c \<and> map_of m c = Some 0
      then Inl ZeroDivisionError
      else Inr (concat (map (\<lambda>a. map (\<lambda>c. ((a, c), float_mul (float_div (the (map_of m a)) (the (map_of m c))) 100))
                    (filter (rule_condition a) (map fst m))) (map fst m)),
                concat (map (\<lambda>a. map (\<lambda>c. the (map_of m a))
                    (filter (rule_condition a) (map fst m))) (map fst m))))"
  proof -
    have p1: "set (map fst m) \<subseteq> fst ` set m" by simp
    have p2: "\<forall>a\<in>set (map fst m). \<forall>c. (a, c) \<notin> fst ` set (fst (([], []) :: rule_state))"
      by simp
    show ?thesis
      unfolding rule_loops_def
      using outer_loop [OF assms p1 assms p2]
      by (simp only: fst_conv snd_conv append_Nil)
  qed
  then show ?thesis by (simp only: c x y)
qed

lemma itemset_df_eq:
  "itemset_df transactions min_support =
     map (\<lambda>i_set. \<lparr>Itemsets = Tup i_set, Frequency = count_occurrences transactions i_set,
            Support = float_mul (float_div (to_float (count_occurrences transactions i_set))
                         (to_float (length transactions))) 100\<rparr>)
       (valid_itemsets transactions min_support)"
  by (simp add: itemset_df_def itemset_occurrences_eq comp_def)

lemma Itemsets_freq_items:
  "map Itemsets (freq_items transactions min_support)
     = map (\<lambda>p. Str (fst p)) (freq_counts transactions min_support)"
  by (simp add: freq_items_def comp_def case_prod_beta)

lemma Itemsets_itemset_df:
  "map Itemsets (itemset_df transactions min_support)
     = map Tup (valid_itemsets transactions min_support)"
  by (simp add: itemset_df_eq comp_def)

lemma distinct_Itemsets_all_frequent:
  "distinct (map Itemsets (all_frequent_items transactions min_support))"
proof -
  have "distinct (map Str (map fst (freq_counts transactions min_support)))"
    using distinct_freq_counts by (simp add: distinct_map inj_on_def)
  then have 1: "distinct (map Itemsets (freq_items transactions min_support))"
    by (simp add: Itemsets_freq_items comp_def)
  have "distinct (map Itemsets (itemset_df transactions min_support))"
    by (simp add: Itemsets_itemset_df distinct_map distinct_valid_itemsets inj_on_def)
  then have 2: "distinct (map Itemsets
      (filter (\<lambda>r. min_support \<le> Support r) (itemset_df transactions min_support)))"
    by (rule distinct_map_filter)
  have 3: "set (map Itemsets (freq_items transactions min_support))
        \<inter> set (map Itemsets (filter (\<lambda>r. min_support \<le> Support r)
              (itemset_df transactions min_support))) = {}"
  proof -
    have "set (map Itemsets (freq_items transactions min_support)) \<subseteq> range Str"
      unfolding Itemsets_freq_items by auto
    moreover have "set (map Itemsets (filter (\<lambda>r. min_support \<le> Support r)
              (itemset_df transactions min_support))) \<subseteq> range Tup"
      by (auto simp: itemset_df_eq)
    ultimately show ?thesis by blast
  qed
  show ?thesis
    unfolding all_frequent_items_def using 1 2 3 by (simp only: map_append distinct_append)
qed

lemma item_support_map_eq:
  "distinct (map Itemsets rows)
   \<Longrightarrow> item_support_map rows = map (\<lambda>r. (Itemsets r, Support r)) rows"
proof -
  assume d: "distinct (map Itemsets rows)"
  have z: "zip (map Itemsets rows) (map Support rows) = map (\<lambda>r. (Itemsets r, Support r)) rows"
    by (induction rows) simp_all
  have "distinct (map fst (map (\<lambda>r. (Itemsets r, Support r)) rows))"
    using d by (simp add: comp_def)
  then show ?thesis
    unfolding item_support_map_def z by (rule dict_distinct)
qed

lemma brute_force_association_eq:
  fixes transactions min_support min_confidence
  defines "table \<equiv> all_frequent_items transactions min_support"
  defines "pairs \<equiv> rule_pairs (map Itemsets table)"
  shows "brute_force_association transactions min_support min_confidence =
     (if \<exists>p\<in>set pairs. support_in table (snd p) = Some 0 then Inl ZeroDivisionError
      else Inr (filter (\<lambda>r. min_confidence \<le> Confidence r)
                  (map (\<lambda>p. \<lparr>Rules = p,
                          Confidence = float_mul (float_div (the (support_in table (fst p)))
                                         (the (support_in table (snd p)))) 100,
                          Rule_Support = the (support_in table (fst p))\<rparr>) pairs),
                table))"
proof -
  let ?m = "map (\<lambda>r. (Itemsets r, Support r)) table"
  have d: "distinct (map Itemsets table)"
    unfolding table_def by (rule distinct_Itemsets_all_frequent)
  have m: "item_support_map table = ?m"
    using d by (rule item_support_map_eq)
  have keys: "map fst ?m = map Itemsets table" by (simp add: comp_def)
  have dm: "distinct (map fst ?m)" using d by (simp only: keys)
  have loops: "rule_loops ?m =
     (if \<exists>p\<in>set pairs. support_in table (snd p) = Some 0 then Inl ZeroDivisionError
      else Inr (map (\<lambda>p. (p, float_mul (float_div (the (support_in table (fst p)))
                                (the (support_in table (snd p)))) 100)) pairs,
                map (\<lambda>p. the (support_in table (fst p))) pairs))"
    using rule_loops_eq [OF dm] unfolding keys pairs_def support_in_def .
  show ?thesis
  proof (cases "\<exists>p\<in>set pairs. support_in table (snd p) = Some 0")
    case True
    then have "rule_loops ?m = Inl ZeroDivisionError" using loops by simp
    then show ?thesis
      using True by (simp add: brute_force_association_def table_def [symmetric] m)
  next
    case False
    then have "rule_loops ?m = Inr (map (\<lambda>p. (p, float_mul (float_div (the (support_in table (fst p)))
                                (the (support_in table (snd p)))) 100)) pairs,
                map (\<lambda>p. the (support_in table (fst p))) pairs)"
      using loops by simp
    then show ?thesis
      using False
      by (simp add: brute_force_association_def table_def [symmetric] m rule_df_def
            zip_map_map comp_def zip_same_conv_map)
  qed
qed

section \<open>Claims\<close>

text \<open>
  C5. For a list of \<open>k\<close> distinct items, \<^const>\<open>generate_itemsets\<close> returns exactly
  \<open>2 ^ k - 1\<close> subsets: read as sets of items, no two entries of the result are equal,
  and the entries are exactly the non-empty subsets of the input; the empty subset does
  not occur.
\<close>

theorem generate_itemsets_powerset:
  assumes "distinct items"
  shows "length (generate_itemsets items) = 2 ^ length items - 1
     \<and> distinct (map set (generate_itemsets items))
     \<and> set (map set (generate_itemsets items)) = {A. A \<subseteq> set items \<and> A \<noteq> {}}"
proof -
  obtain rest where r: "fold extend_subsets items [[]] = [] # rest"
    using fold_extend_Cons by blast
  have g: "generate_itemsets items = rest"
    by (simp add: generate_itemsets_def r)
  have len: "length (generate_itemsets items) = 2 ^ length items - 1"
    by (simp add: generate_itemsets_def length_fold_extend)
  have d: "distinct (map set ([] # rest))"
    using distinct_map_set_fold_extend [OF assms] r by simp
  then have d': "distinct (map set rest)" and ne: "{} \<notin> set ` set rest"
    by simp_all
  have "set ` set (fold extend_subsets items [[]]) = Pow (set items)"
    by (simp only: set_fold_extend_Nil set_subseq_Pow)
  then have "insert {} (set ` set rest) = Pow (set items)"
    by (simp add: r)
  with ne have "set ` set rest = Pow (set items) - {{}}"
    by (metis Diff_insert_absorb)
  also have "\<dots> = {A. A \<subseteq> set items \<and> A \<noteq> {}}" by blast
  finally have s: "set (map set rest) = {A. A \<subseteq> set items \<and> A \<noteq> {}}" by simp
  show ?thesis
    unfolding g using len [unfolded g] d' s by (intro conjI)
qed

theorem generate_itemsets_powerset_witness:
  "length (generate_itemsets [''A'', ''B'', ''C'']) = 2 ^ length [''A'', ''B'', ''C''] - 1
     \<and> distinct (map set (generate_itemsets [''A'', ''B'', ''C'']))
     \<and> set (map set (generate_itemsets [''A'', ''B'', ''C'']))
         = {A. A \<subseteq> set [''A'', ''B'', ''C''] \<and> A \<noteq> {}}"
proof -
  have d: "distinct [''A'', ''B'', ''C'']" by simp
  show ?thesis by (rule generate_itemsets_powerset [OF d])
qed

end
